theory Spec2Isabelle
  imports Main "HOL-Library.Sublist"
begin

section \<open>The UniFi client library: path resolution and tolerant scalar decoding\<close>

text \<open>
  The Go package \<^verbatim>\<open>unifi\<close> (file \<^verbatim>\<open>core/unifi/types.go\<close>) is embedded
  function by function.  A Go \<^verbatim>\<open>string\<close> and a Go \<^verbatim>\<open>[]byte\<close> are sequences of
  bytes; both are modelled by \<^typ>\<open>string\<close>, a list of 8-bit characters, so that
  the conversion \<^verbatim>\<open>string(b)\<close> is the identity.  The functions of the Go
  standard library that the package calls are modelled next to their callers,
  after the library's source and documentation.
\<close>

subsection \<open>API paths\<close>

definition APILoginPath :: string where
  "APILoginPath = ''/api/login''"

definition APILoginPathNew :: string where
  "APILoginPathNew = ''/api/auth/login''"

definition APIPrefixNew :: string where
  "APIPrefixNew = ''/proxy/network''"

text \<open>
  \<^verbatim>\<open>strings.HasPrefix(s, prefix)\<close> of the Go library:
  \<^verbatim>\<open>len(s) >= len(prefix) && s[:len(prefix)] == prefix\<close>.
\<close>

definition HasPrefix :: "string \<Rightarrow> string \<Rightarrow> bool" where
  "HasPrefix s pre = (length s \<ge> length pre \<and> take (length pre) s = pre)"

text \<open>
  The configuration and the client handle.  The logger fields, the embedded
  HTTP client and the cached server status play no part in what follows and
  are left out of the records.
\<close>

record Config =
  User :: string
  Pass :: string
  URL :: string
  VerifySSL :: bool
  New :: bool

record Unifi =
  config :: Config
  csrf :: string

text \<open>\<^verbatim>\<open>func (u *Unifi) path(path string) string\<close>\<close>

definition path :: "Unifi \<Rightarrow> string \<Rightarrow> string" where
  "path u p =
     (if New (config u) then
        (if p = APILoginPath then APILoginPathNew
         else if \<not> HasPrefix p APIPrefixNew \<and> p \<noteq> APILoginPathNew then APIPrefixNew @ p
         else p)
      else p)"

text \<open>Two client handles used as concrete inputs: a legacy controller and a new one.\<close>

definition legacy_controller :: Unifi where
  "legacy_controller =
     \<lparr>config = \<lparr>User = ''admin'', Pass = ''secret'', URL = ''https://127.0.0.1:8443'',
                 VerifySSL = False, New = False\<rparr>, csrf = []\<rparr>"

definition new_controller :: Unifi where
  "new_controller =
     \<lparr>config = \<lparr>User = ''admin'', Pass = ''secret'', URL = ''https://127.0.0.1'',
                 VerifySSL = False, New = True\<rparr>, csrf = []\<rparr>"

subsection \<open>Bytes and UTF-8 decoding\<close>

abbreviation byte :: "char \<Rightarrow> nat" where
  "byte c \<equiv> of_char c"

text \<open>Runes (Unicode code points) are natural numbers.\<close>

definition RuneSelf :: nat where "RuneSelf = 0x80"
definition RuneError :: nat where "RuneError = 0xFFFD"

text \<open>
  \<^verbatim>\<open>utf8.DecodeRuneInString(s)\<close>: the first rune of \<open>s\<close> and its width in bytes.
  An invalid or truncated encoding yields \<^verbatim>\<open>(RuneError, 1)\<close>, the empty string
  \<^verbatim>\<open>(RuneError, 0)\<close>.  The lead byte fixes the width and the range accepted for
  the second byte (the tables \<^verbatim>\<open>first\<close> and \<^verbatim>\<open>acceptRanges\<close> of package
  \<^verbatim>\<open>utf8\<close>); the masks \<^verbatim>\<open>s0&mask2\<close>, \<^verbatim>\<open>s1&maskx\<close> are written as remainders.
  A \<^verbatim>\<open>range\<close> loop over a string decodes it in the same way.
\<close>

definition DecodeRuneInString :: "string \<Rightarrow> nat \<times> nat" where
  "DecodeRuneInString s =
     (case s of
        [] \<Rightarrow> (RuneError, 0)
      | c0 # s' \<Rightarrow>
          (let s0 = byte c0 in
           if s0 < RuneSelf then (s0, 1)
           else if s0 < 0xC2 \<or> 0xF4 < s0 then (RuneError, 1)
           else
             (let sz = (if s0 < 0xE0 then 2 else if s0 < 0xF0 then 3 else 4 :: nat);
                  lo = (if s0 = 0xE0 then 0xA0 else if s0 = 0xF0 then 0x90 else 0x80 :: nat);
                  hi = (if s0 = 0xED then 0x9F else if s0 = 0xF4 then 0x8F else 0xBF :: nat)
              in if length s < sz then (RuneError, 1)
                 else
                   (let s1 = byte (s ! 1) in
                    if s1 < lo \<or> hi < s1 then (RuneError, 1)
                    else if sz \<le> 2 then (s0 mod 0x20 * 0x40 + s1 mod 0x40, 2)
                    else
                      (let s2 = byte (s ! 2) in
                       if s2 < 0x80 \<or> 0xBF < s2 then (RuneError, 1)
                       else if sz \<le> 3 then
                         (s0 mod 0x10 * 0x1000 + s1 mod 0x40 * 0x40 + s2 mod 0x40, 3)
                       else
                         (let s3 = byte (s ! 3) in
                          if s3 < 0x80 \<or> 0xBF < s3 then (RuneError, 1)
                          else (s0 mod 8 * 0x40000 + s1 mod 0x40 * 0x1000
                                  + s2 mod 0x40 * 0x40 + s3 mod 0x40, 4)))))))"

lemma DecodeRune_size:
  "s \<noteq> [] \<Longrightarrow> 1 \<le> snd (DecodeRuneInString s) \<and> snd (DecodeRuneInString s) \<le> length s"
  by (auto simp: DecodeRuneInString_def Let_def Suc_le_eq split: list.splits)

subsection \<open>Case folding: \<^verbatim>\<open>unicode.SimpleFold\<close> and \<^verbatim>\<open>strings.EqualFold\<close>\<close>

text \<open>
  The table \<^verbatim>\<open>asciiFold\<close> of package \<^verbatim>\<open>unicode\<close>: the next rune, in code point
  order, of the case orbit of an ASCII rune, wrapping around at the end of the orbit.
  A letter goes to its other case, except that the orbits of K and S have a third
  element: the Kelvin sign U+212A and the long s U+017F.
\<close>

definition asciiFold :: "nat \<Rightarrow> nat" where
  "asciiFold r =
     (if 0x41 \<le> r \<and> r \<le> 0x5A then r + 0x20
      else if r = 0x6B then 0x212A
      else if r = 0x73 then 0x17F
      else if 0x61 \<le> r \<and> r \<le> 0x7A then r - 0x20
      else r)"

text \<open>
  \<^verbatim>\<open>unicode.SimpleFold(r)\<close>.  Runes above \<^verbatim>\<open>MaxRune\<close> are returned unchanged,
  ASCII runes are looked up in \<^verbatim>\<open>asciiFold\<close>, and the two other members of the
  orbits of K and S close those orbits.  The remaining entries of the Unicode tables
  \<^verbatim>\<open>caseOrbit\<close> and \<^verbatim>\<open>CaseRanges\<close> are the parameter \<open>tables\<close>: every result below
  holds for any value of it.
\<close>

definition SimpleFold :: "(nat \<Rightarrow> nat) \<Rightarrow> nat \<Rightarrow> nat" where
  "SimpleFold tables r =
     (if 0x10FFFF < r then r
      else if r < 0x80 then asciiFold r
      else if r = 0x17F then 0x53
      else if r = 0x212A then 0x4B
      else tables r)"

text \<open>
  The inner loop of \<^verbatim>\<open>EqualFold\<close>,
  \<^verbatim>\<open>for r != sr && r < tr { r = unicode.SimpleFold(r) }\<close>, returning the final \<open>r\<close>.
  With an arbitrary table the loop need not end, so its result is optional.
\<close>

partial_function (option) fold_search :: "(nat \<Rightarrow> nat) \<Rightarrow> nat \<Rightarrow> nat \<Rightarrow> nat \<Rightarrow> nat option" where
  "fold_search tables r sr tr =
     (if r \<noteq> sr \<and> r < tr then fold_search tables (SimpleFold tables r) sr tr else Some r)"

declare fold_search.simps [code]

text \<open>
  The comparison of one pair of runes in the general loop of \<^verbatim>\<open>EqualFold\<close>:
  equal runes match; otherwise the runes are ordered so that \<open>sr < tr\<close>, two ASCII
  runes match when they are the two cases of one letter, and in the general case the
  orbit of \<open>sr\<close> is searched for \<open>tr\<close>.
\<close>

definition fold_pair :: "(nat \<Rightarrow> nat) \<Rightarrow> nat \<Rightarrow> nat \<Rightarrow> bool option" where
  "fold_pair tables sr0 tr0 =
     (if tr0 = sr0 then Some True
      else
        (let sr = (if tr0 < sr0 then tr0 else sr0);
             tr = (if tr0 < sr0 then sr0 else tr0)
         in if tr < RuneSelf then Some (0x41 \<le> sr \<and> sr \<le> 0x5A \<and> tr = sr + 0x61 - 0x41)
            else map_option (\<lambda>r. r = tr) (fold_search tables (SimpleFold tables sr) sr tr)))"

text \<open>
  The part of \<^verbatim>\<open>EqualFold\<close> after the label \<^verbatim>\<open>hasUnicode\<close>: the runes of \<open>s\<close> are
  compared one by one with the runes read from the front of \<open>t\<close>.
\<close>

function EqualFold_runes :: "(nat \<Rightarrow> nat) \<Rightarrow> string \<Rightarrow> string \<Rightarrow> bool option" where
  "EqualFold_runes tables s t =
     (if s = [] then Some (length t = 0)
      else if length t = 0 then Some False
      else
        (let sr = fst (DecodeRuneInString s);
             s' = drop (snd (DecodeRuneInString s)) s;
             tr = (if byte (hd t) < RuneSelf then byte (hd t) else fst (DecodeRuneInString t));
             t' = (if byte (hd t) < RuneSelf then tl t else drop (snd (DecodeRuneInString t)) t)
         in case fold_pair tables sr tr of
              None \<Rightarrow> None
            | Some False \<Rightarrow> Some False
            | Some True \<Rightarrow> EqualFold_runes tables s' t'))"
  by pat_completeness auto
termination
proof (relation "measure (\<lambda>(tables, s, t). length s)")
  show "wf (measure (\<lambda>(tables, s, t). length s))" by simp
next
  fix tables :: "nat \<Rightarrow> nat" and s t :: string and sr s' tr t' and x2 :: bool
  assume "s \<noteq> []" and s': "s' = drop (snd (DecodeRuneInString s)) s"
  then have "1 \<le> snd (DecodeRuneInString s)" using DecodeRune_size by blast
  with \<open>s \<noteq> []\<close> show "((tables, s', t'), tables, s, t) \<in> measure (\<lambda>(tables, s, t). length s)"
    by (simp add: s')
qed

declare EqualFold_runes.simps [simp del]

text \<open>
  \<^verbatim>\<open>strings.EqualFold(s, t)\<close>.  The first loop walks both strings bytewise while the
  bytes are ASCII and jumps to the general loop, with the rest of both strings, at the
  first byte that is not.  When one string is exhausted the result is
  \<^verbatim>\<open>len(s) == len(t)\<close>.
\<close>

fun EqualFold :: "(nat \<Rightarrow> nat) \<Rightarrow> string \<Rightarrow> string \<Rightarrow> bool option" where
  "EqualFold tables (a # s) (b # t) =
     (if RuneSelf \<le> byte a \<or> RuneSelf \<le> byte b then EqualFold_runes tables (a # s) (b # t)
      else if byte b = byte a then EqualFold tables s t
      else
        (let sr = (if byte b < byte a then byte b else byte a);
             tr = (if byte b < byte a then byte a else byte b)
         in if 0x41 \<le> sr \<and> sr \<le> 0x5A \<and> tr = sr + 0x61 - 0x41 then EqualFold tables s t
            else Some False))"
| "EqualFold tables s t = Some (length s = length t)"

subsection \<open>\<^verbatim>\<open>strings.Trim\<close>\<close>

text \<open>
  \<^verbatim>\<open>strings.Trim(s, cutset)\<close> for a cutset of one ASCII byte \<open>c\<close>, the only use in
  the package: \<^verbatim>\<open>trimLeftByte(trimRightByte(s, c), c)\<close>, where each helper is a loop
  that drops bytes equal to \<open>c\<close> from its end of the string.
\<close>

fun trimLeftByte :: "string \<Rightarrow> char \<Rightarrow> string" where
  "trimLeftByte [] c = []"
| "trimLeftByte (x # s) c = (if x = c then trimLeftByte s c else x # s)"

function trimRightByte :: "string \<Rightarrow> char \<Rightarrow> string" where
  "trimRightByte s c = (if s \<noteq> [] \<and> last s = c then trimRightByte (butlast s) c else s)"
  by pat_completeness auto
termination
  by (relation "measure (\<lambda>(s, c). length s)") (auto simp: less_Suc_eq_le intro: diff_less)

declare trimRightByte.simps [simp del]

definition Trim :: "string \<Rightarrow> char \<Rightarrow> string" where
  "Trim s c = (if s = [] then s else trimLeftByte (trimRightByte s c) c)"

subsection \<open>Errors\<close>

text \<open>
  The errors a decoder returns: the two errors of \<^verbatim>\<open>json.Unmarshal\<close> (a syntax
  error; a number that does not fit the target type, with the number's text), the
  package's \<^verbatim>\<open>errCannotUnmarshalFlexInt\<close>, and \<^verbatim>\<open>errors.Wrapf(err, format, ...)\<close>
  with the wrapped error and the formatted message.
\<close>

datatype error =
  SyntaxError
  | UnmarshalTypeError string
  | errCannotUnmarshalFlexInt
  | Wrapf error string

subsection \<open>\<^verbatim>\<open>FlexBool\<close>\<close>

record FlexBool =
  Val :: bool
  Txt :: string

text \<open>Go's \<^verbatim>\<open>||\<close> evaluates its right operand only when the left one is false.\<close>

definition or_else :: "bool option \<Rightarrow> bool option \<Rightarrow> bool option" where
  "or_else x y = (case x of None \<Rightarrow> None | Some True \<Rightarrow> Some True | Some False \<Rightarrow> y)"

text \<open>
  \<^verbatim>\<open>func (f *FlexBool) UnmarshalJSON(b []byte) error\<close>.  The method updates the
  receiver and returns an error; the model returns the updated receiver and the error
  (\<open>None\<close> for \<^verbatim>\<open>nil\<close>).  The outer option is \<open>None\<close> when a call of
  \<^verbatim>\<open>EqualFold\<close> does not return.
\<close>

definition FlexBool_UnmarshalJSON ::
    "(nat \<Rightarrow> nat) \<Rightarrow> FlexBool \<Rightarrow> string \<Rightarrow> (FlexBool \<times> error option) option" where
  "FlexBool_UnmarshalJSON tables f b =
     (let f1 = f\<lparr>Txt := Trim b (CHR 0x22)\<rparr>;
          v = or_else (Some (Txt f1 = ''1''))
             (or_else (EqualFold tables (Txt f1) ''true'')
             (or_else (EqualFold tables (Txt f1) ''yes'')
             (or_else (EqualFold tables (Txt f1) ''t'')
             (or_else (EqualFold tables (Txt f1) ''armed'')
             (or_else (EqualFold tables (Txt f1) ''active'')
             (or_else (EqualFold tables (Txt f1) ''enabled'')
             (or_else (EqualFold tables (Txt f1) ''ready'')
             (or_else (EqualFold tables (Txt f1) ''up'')
                      (EqualFold tables (Txt f1) ''ok'')))))))))
      in map_option (\<lambda>v. (f1\<lparr>Val := v\<rparr>, None)) v)"

text \<open>\<^verbatim>\<open>func (f *FlexBool) String() string\<close>\<close>

definition FlexBool_String :: "FlexBool \<Rightarrow> string" where
  "FlexBool_String f = Txt f"

subsection \<open>Case-insensitive matching, as a specification\<close>

text \<open>The runes of a string, decoded as a \<^verbatim>\<open>range\<close> loop decodes them.\<close>

function runes :: "string \<Rightarrow> nat list" where
  "runes s =
     (if s = [] then []
      else fst (DecodeRuneInString s) # runes (drop (snd (DecodeRuneInString s)) s))"
  by pat_completeness auto
termination
proof (relation "measure length")
  show "wf (measure length)" by simp
next
  fix s :: string
  assume "s \<noteq> []"
  then have "1 \<le> snd (DecodeRuneInString s)" using DecodeRune_size by blast
  with \<open>s \<noteq> []\<close> show "(drop (snd (DecodeRuneInString s)) s, s) \<in> measure length"
    by simp
qed

declare runes.simps [simp del]

text \<open>
  The representative of the case orbit of a rune that is case-equivalent to an ASCII
  rune: a capital letter folds to its small letter, the long s to \<open>s\<close> and the Kelvin
  sign to \<open>k\<close>; every other rune is its own representative.
\<close>

definition fold_key :: "nat \<Rightarrow> nat" where
  "fold_key r =
     (if 0x41 \<le> r \<and> r \<le> 0x5A then r + 0x20
      else if r = 0x17F then 0x73
      else if r = 0x212A then 0x6B
      else r)"

text \<open>
  Two strings match case-insensitively when they have as many runes and corresponding
  runes have the same representative.  This is Unicode simple case folding whenever
  one of the strings is ASCII, as every token of the vocabulary is.
\<close>

definition ci_match :: "string \<Rightarrow> string \<Rightarrow> bool" where
  "ci_match s t = (map fold_key (runes s) = map fold_key (runes t))"

text \<open>The truthy vocabulary of the specification.\<close>

definition truthy_vocabulary :: "string list" where
  "truthy_vocabulary =
     [''1'', ''true'', ''yes'', ''t'', ''armed'', ''active'', ''enabled'', ''ready'', ''up'', ''ok'']"

text \<open>
  Stripping a single layer of double quotes, as the specification words it: one quote
  from the front when there is one, then one from the end when there is one.
\<close>

definition strip_one_layer :: "string \<Rightarrow> string" where
  "strip_one_layer b =
     (let b1 = (if b \<noteq> [] \<and> hd b = CHR 0x22 then tl b else b)
      in if b1 \<noteq> [] \<and> last b1 = CHR 0x22 then butlast b1 else b1)"

section \<open>Properties of the path resolver\<close>

lemma HasPrefix_iff_prefix: "HasPrefix s pre = prefix pre s"
  by (auto simp: HasPrefix_def prefix_def min_def dest: arg_cong [where f = length])
    (metis append_take_drop_id)

text \<open>
  Claim C1.  The resolver returns its input unchanged on a legacy controller.  On a new
  controller it maps the legacy login path \<open>/api/login\<close> to \<open>/api/auth/login\<close>, prepends
  \<open>/proxy/network\<close> to every other path that neither starts with that prefix nor is the
  new login path, and returns every remaining path unchanged.  The resolver is a total
  function of the path and the flag: the four cases cover every input and none of them
  is an error.
\<close>

theorem path_cases:
  "(\<not> New (config u) \<longrightarrow> path u p = p) \<and>
   (New (config u) \<and> p = ''/api/login'' \<longrightarrow> path u p = ''/api/auth/login'') \<and>
   (New (config u) \<and> p \<noteq> ''/api/login'' \<and> \<not> prefix ''/proxy/network'' p \<and> p \<noteq> ''/api/auth/login''
      \<longrightarrow> path u p = ''/proxy/network'' @ p) \<and>
   (New (config u) \<and> p \<noteq> ''/api/login'' \<and> (prefix ''/proxy/network'' p \<or> p = ''/api/auth/login'')
      \<longrightarrow> path u p = p)"
  unfolding path_def HasPrefix_iff_prefix APILoginPath_def APILoginPathNew_def APIPrefixNew_def
  by simp

theorem path_cases_witness:
  "path legacy_controller ''/api/login'' = ''/api/login'' \<and>
   path new_controller ''/api/login'' = ''/api/auth/login'' \<and>
   path new_controller ''/api/s/default/stat/device'' = ''/proxy/network/api/s/default/stat/device'' \<and>
   path new_controller ''/proxy/network/status'' = ''/proxy/network/status'' \<and>
   path new_controller ''/api/auth/login'' = ''/api/auth/login''"
  using path_cases [of legacy_controller "''/api/login''"]
    path_cases [of new_controller "''/api/login''"]
    path_cases [of new_controller "''/api/s/default/stat/device''"]
    path_cases [of new_controller "''/proxy/network/status''"]
    path_cases [of new_controller "''/api/auth/login''"]
  by (simp add: legacy_controller_def new_controller_def)

text \<open>
  Claim C8.  The resolver is idempotent for either value of the firmware flag: resolving
  a resolved path changes nothing.  In particular a path that already starts with
  \<open>/proxy/network\<close> is returned unchanged on a new controller.
\<close>

theorem path_idempotent:
  "path u (path u p) = path u p \<and>
   (New (config u) \<and> prefix ''/proxy/network'' p \<longrightarrow> path u p = p)"
  unfolding path_def HasPrefix_iff_prefix APILoginPath_def APILoginPathNew_def APIPrefixNew_def
  by simp

theorem path_idempotent_witness:
  "path new_controller (path new_controller ''/api/login'') = path new_controller ''/api/login'' \<and>
   path new_controller ''/proxy/network/api/stat/sites'' = ''/proxy/network/api/stat/sites''"
  using path_idempotent [of new_controller "''/api/login''"]
    path_idempotent [of new_controller "''/proxy/network/api/stat/sites''"]
  by (simp add: new_controller_def)

text \<open>
  Claim C10.  On a new controller every output of the resolver either starts with
  \<open>/proxy/network\<close> or is exactly \<open>/api/auth/login\<close>.
\<close>

theorem path_new_normalized:
  "New (config u) \<Longrightarrow> prefix ''/proxy/network'' (path u p) \<or> path u p = ''/api/auth/login''"
  unfolding path_def HasPrefix_iff_prefix APILoginPath_def APILoginPathNew_def APIPrefixNew_def
  by simp

theorem path_new_normalized_witness:
  "New (config new_controller) \<and>
   (prefix ''/proxy/network'' (path new_controller ''/status'') \<or>
    path new_controller ''/status'' = ''/api/auth/login'')"
proof -
  have n: "New (config new_controller)"
    by (simp add: new_controller_def)
  from path_new_normalized [OF n, of "''/status''"] n show ?thesis
    by simp
qed

section \<open>Properties of \<^verbatim>\<open>EqualFold\<close>, \<^verbatim>\<open>Trim\<close> and the boolean decoder\<close>

lemma fold_search_stop: "\<not> (r \<noteq> sr \<and> r < tr) \<Longrightarrow> fold_search tables r sr tr = Some r"
  by (subst fold_search.simps) auto

lemma fold_search_step:
  "r \<noteq> sr \<Longrightarrow> r < tr \<Longrightarrow> fold_search tables r sr tr = fold_search tables (SimpleFold tables r) sr tr"
  by (subst fold_search.simps) simp

lemma fold_search_other:
  assumes "SimpleFold tables r = r"
  shows "fold_search tables (SimpleFold tables r) r tr = Some r"
  using assms by (simp add: fold_search_stop)

lemma fold_search_upper:
  assumes "0x41 \<le> c" "c \<le> 0x5A" "c \<noteq> 0x4B" "c \<noteq> 0x53" "0x80 \<le> tr"
  shows "fold_search tables (SimpleFold tables c) c tr = Some c"
proof -
  have 1: "SimpleFold tables c = c + 0x20"
    using assms by (simp add: SimpleFold_def asciiFold_def)
  have 2: "SimpleFold tables (c + 0x20) = c"
    using assms by (simp add: SimpleFold_def asciiFold_def)
  have "fold_search tables (c + 0x20) c tr = fold_search tables c c tr"
    using assms by (simp add: fold_search_step 2)
  then show ?thesis
    by (simp add: 1 fold_search_stop)
qed

lemma fold_search_lower:
  assumes "0x61 \<le> c" "c \<le> 0x7A" "c \<noteq> 0x6B" "c \<noteq> 0x73" "0x80 \<le> tr"
  shows "fold_search tables (SimpleFold tables c) c tr = Some c"
proof -
  have 1: "SimpleFold tables c = c - 0x20"
    using assms by (simp add: SimpleFold_def asciiFold_def)
  have 2: "SimpleFold tables (c - 0x20) = c"
    using assms by (auto simp: SimpleFold_def asciiFold_def)
  have "fold_search tables (c - 0x20) c tr = fold_search tables c c tr"
    using assms by (simp add: fold_search_step 2)
  then show ?thesis
    by (simp add: 1 fold_search_stop)
qed

lemma SimpleFold_K [simp]:
  "SimpleFold tables 0x4B = 0x6B" "SimpleFold tables 0x6B = 0x212A" "SimpleFold tables 0x212A = 0x4B"
  by (simp_all add: SimpleFold_def asciiFold_def)

lemma SimpleFold_S [simp]:
  "SimpleFold tables 0x53 = 0x73" "SimpleFold tables 0x73 = 0x17F" "SimpleFold tables 0x17F = 0x53"
  by (simp_all add: SimpleFold_def asciiFold_def)

lemma fold_search_K:
  assumes "0x80 \<le> tr"
  shows "fold_search tables 0x6B 0x4B tr = Some (if tr \<le> 0x212A then 0x212A else 0x4B)"
    and "fold_search tables 0x212A 0x6B tr = Some (if tr \<le> 0x212A then 0x212A else 0x6B)"
proof -
  have a: "fold_search tables 0x212A c tr = Some 0x212A" if "tr \<le> 0x212A" for c
    using that by (simp add: fold_search_stop)
  have b: "fold_search tables 0x4B 0x4B tr = Some 0x4B" "fold_search tables 0x6B 0x6B tr = Some 0x6B"
    by (simp_all add: fold_search_stop)
  have c: "fold_search tables 0x6B 0x4B tr = fold_search tables 0x212A 0x4B tr"
    using assms by (simp add: fold_search_step)
  have d: "fold_search tables 0x212A 0x4B tr = fold_search tables 0x4B 0x4B tr" if "0x212A < tr"
    using that by (simp add: fold_search_step)
  have e: "fold_search tables 0x212A 0x6B tr = fold_search tables 0x4B 0x6B tr" if "0x212A < tr"
    using that by (simp add: fold_search_step)
  have f: "fold_search tables 0x4B 0x6B tr = fold_search tables 0x6B 0x6B tr"
    using assms by (simp add: fold_search_step)
  show "fold_search tables 0x6B 0x4B tr = Some (if tr \<le> 0x212A then 0x212A else 0x4B)"
    using a b c d by (cases "tr \<le> 0x212A") simp_all
  show "fold_search tables 0x212A 0x6B tr = Some (if tr \<le> 0x212A then 0x212A else 0x6B)"
    using a b e f by (cases "tr \<le> 0x212A") simp_all
qed

lemma fold_search_S:
  assumes "0x80 \<le> tr"
  shows "fold_search tables 0x73 0x53 tr = Some (if tr \<le> 0x17F then 0x17F else 0x53)"
    and "fold_search tables 0x17F 0x73 tr = Some (if tr \<le> 0x17F then 0x17F else 0x73)"
proof -
  have a: "fold_search tables 0x17F c tr = Some 0x17F" if "tr \<le> 0x17F" for c
    using that by (simp add: fold_search_stop)
  have b: "fold_search tables 0x53 0x53 tr = Some 0x53" "fold_search tables 0x73 0x73 tr = Some 0x73"
    by (simp_all add: fold_search_stop)
  have c: "fold_search tables 0x73 0x53 tr = fold_search tables 0x17F 0x53 tr"
    using assms by (simp add: fold_search_step)
  have d: "fold_search tables 0x17F 0x53 tr = fold_search tables 0x53 0x53 tr" if "0x17F < tr"
    using that by (simp add: fold_search_step)
  have e: "fold_search tables 0x17F 0x73 tr = fold_search tables 0x53 0x73 tr" if "0x17F < tr"
    using that by (simp add: fold_search_step)
  have f: "fold_search tables 0x53 0x73 tr = fold_search tables 0x73 0x73 tr"
    using assms by (simp add: fold_search_step)
  show "fold_search tables 0x73 0x53 tr = Some (if tr \<le> 0x17F then 0x17F else 0x53)"
    using a b c d by (cases "tr \<le> 0x17F") simp_all
  show "fold_search tables 0x17F 0x73 tr = Some (if tr \<le> 0x17F then 0x17F else 0x73)"
    using a b e f by (cases "tr \<le> 0x17F") simp_all
qed

lemma fold_search_ascii:
  assumes "c < 0x80" and "0x80 \<le> tr"
  shows "map_option (\<lambda>r. r = tr) (fold_search tables (SimpleFold tables c) c tr)
           = Some (fold_key tr = fold_key c)"
proof -
  consider (K) "c = 0x4B" | (k) "c = 0x6B" | (S) "c = 0x53" | (s) "c = 0x73"
    | (upper) "0x41 \<le> c" "c \<le> 0x5A" "c \<noteq> 0x4B" "c \<noteq> 0x53"
    | (lower) "0x61 \<le> c" "c \<le> 0x7A" "c \<noteq> 0x6B" "c \<noteq> 0x73"
    | (other) "c < 0x41 \<or> (0x5A < c \<and> c < 0x61) \<or> 0x7A < c"
    by linarith
  then show ?thesis
  proof cases
    case K
    with assms show ?thesis by (simp add: fold_search_K fold_key_def)
  next
    case k
    with assms show ?thesis by (simp add: fold_search_K fold_key_def)
  next
    case S
    with assms show ?thesis by (simp add: fold_search_S fold_key_def)
  next
    case s
    with assms show ?thesis by (simp add: fold_search_S fold_key_def)
  next
    case upper
    with assms show ?thesis by (simp add: fold_search_upper fold_key_def)
  next
    case lower
    with assms show ?thesis by (simp add: fold_search_lower fold_key_def)
  next
    case other
    with assms have "SimpleFold tables c = c"
      by (auto simp: SimpleFold_def asciiFold_def)
    then have "fold_search tables (SimpleFold tables c) c tr = Some c"
      by (rule fold_search_other)
    with assms other show ?thesis
      by (auto simp: fold_key_def)
  qed
qed

lemma fold_pair_ascii:
  assumes "tr0 < 0x80"
  shows "fold_pair tables sr0 tr0 = Some (fold_key sr0 = fold_key tr0)"
proof (cases "sr0 < 0x80")
  case True
  with assms show ?thesis
    by (auto simp: fold_pair_def Let_def RuneSelf_def fold_key_def)
next
  case False
  then have big: "0x80 \<le> sr0" by simp
  with assms have lt: "tr0 < sr0" by simp
  have "fold_pair tables sr0 tr0
          = map_option (\<lambda>r. r = sr0) (fold_search tables (SimpleFold tables tr0) tr0 sr0)"
    using lt big by (simp add: fold_pair_def Let_def RuneSelf_def)
  also have "\<dots> = Some (fold_key sr0 = fold_key tr0)"
    by (rule fold_search_ascii [OF assms big])
  finally show ?thesis .
qed

lemma runes_Nil [simp]: "runes [] = []"
  by (subst runes.simps) simp

lemma runes_ascii_Cons: "byte c < 0x80 \<Longrightarrow> runes (c # s) = byte c # runes s"
  by (subst runes.simps) (simp add: DecodeRuneInString_def RuneSelf_def)


lemma EqualFold_runes_ascii:
  "\<forall>c \<in> set t. byte c < 0x80 \<Longrightarrow>
     EqualFold_runes tables s t = Some (map fold_key (runes s) = map fold_key (map byte t))"
proof (induction t arbitrary: s)
  case Nil
  show ?case
    by (subst EqualFold_runes.simps, subst runes.simps) simp
next
  case (Cons b t)
  then have b: "byte b < 0x80" and t: "\<forall>c \<in> set t. byte c < 0x80" by simp_all
  show ?case
  proof (cases "s = []")
    case True
    then show ?thesis by (subst EqualFold_runes.simps) simp
  next
    case False
    have r: "runes s = fst (DecodeRuneInString s) # runes (drop (snd (DecodeRuneInString s)) s)"
      using False by (subst runes.simps) simp
    show ?thesis
      using False b Cons.IH [OF t, of "drop (snd (DecodeRuneInString s)) s"]
      by (subst EqualFold_runes.simps, subst r)
        (simp add: Let_def RuneSelf_def fold_pair_ascii split: bool.splits)
  qed
qed

lemma EqualFold_eq_runes: "EqualFold tables s t = EqualFold_runes tables s t"
proof (induction tables s t rule: EqualFold.induct)
  case (1 tables a s b t)
  show ?case
  proof (cases "RuneSelf \<le> byte a \<or> RuneSelf \<le> byte b")
    case True
    then show ?thesis by simp
  next
    case False
    then have a: "byte a < 0x80" and b: "byte b < 0x80" by (simp_all add: RuneSelf_def)
    define cnd where "cnd \<longleftrightarrow>
      (let sr = (if byte b < byte a then byte b else byte a);
           tr = (if byte b < byte a then byte a else byte b)
       in 0x41 \<le> sr \<and> sr \<le> 0x5A \<and> tr = sr + 0x61 - 0x41)"
    have d: "DecodeRuneInString (a # s) = (byte a, 1)"
      using a by (simp add: DecodeRuneInString_def RuneSelf_def)
    have fp: "fold_pair tables (byte a) (byte b) = Some (byte b = byte a \<or> cnd)"
      using a b by (auto simp: fold_pair_def Let_def RuneSelf_def cnd_def)
    have step: "EqualFold_runes tables (a # s) (b # t)
                  = (if byte b = byte a \<or> cnd then EqualFold_runes tables s t else Some False)"
      using b by (subst EqualFold_runes.simps) (simp add: d fp Let_def RuneSelf_def)
    have ef: "EqualFold tables (a # s) (b # t)
                = (if byte b = byte a \<or> cnd then EqualFold tables s t else Some False)"
      using False by (simp add: cnd_def Let_def)
    have IH: "EqualFold tables s t = EqualFold_runes tables s t" if "byte b = byte a \<or> cnd"
    proof (cases "b = a")
      case True
      with "1.IH"(1) False show ?thesis by simp
    next
      case neq: False
      with that have cnd by simp
      with "1.IH"(2) [OF False _ refl refl] neq show ?thesis
        by (simp add: cnd_def Let_def)
    qed
    show ?thesis
      unfolding ef step using IH by simp
  qed
qed ((subst EqualFold_runes.simps, simp)+)

lemma runes_ascii: "\<forall>c \<in> set t. byte c < 0x80 \<Longrightarrow> runes t = map byte t"
  by (induction t) (simp_all add: runes_ascii_Cons)

lemma EqualFold_ascii:
  "\<forall>c \<in> set t. byte c < 0x80 \<Longrightarrow> EqualFold tables s t = Some (ci_match s t)"
  by (simp add: EqualFold_eq_runes EqualFold_runes_ascii ci_match_def runes_ascii
)

lemma trimLeftByte_decomp:
  "\<exists>l. s = l @ trimLeftByte s c \<and> set l \<subseteq> {c} \<and> (trimLeftByte s c = [] \<or> hd (trimLeftByte s c) \<noteq> c)"
proof (induction s)
  case Nil
  show ?case by simp
next
  case (Cons x s)
  then obtain l where l: "s = l @ trimLeftByte s c" "set l \<subseteq> {c}"
      "trimLeftByte s c = [] \<or> hd (trimLeftByte s c) \<noteq> c"
    by blast
  show ?case
  proof (cases "x = c")
    case True
    with l have "x # s = (c # l) @ trimLeftByte (x # s) c" "set (c # l) \<subseteq> {c}"
      by simp_all
    with l(3) True show ?thesis by (metis trimLeftByte.simps(2))
  next
    case False
    then show ?thesis by (intro exI [of _ "[]"]) simp
  qed
qed

lemma trimLeftByte_last:
  "trimLeftByte s c \<noteq> [] \<Longrightarrow> last (trimLeftByte s c) = last s"
  by (induction s) (auto split: if_splits)

lemma trimRightByte_decomp:
  "\<exists>r. s = trimRightByte s c @ r \<and> set r \<subseteq> {c} \<and> (trimRightByte s c = [] \<or> last (trimRightByte s c) \<noteq> c)"
proof (induction s c rule: trimRightByte.induct)
  case (1 s c)
  show ?case
  proof (cases "s \<noteq> [] \<and> last s = c")
    case True
    then have eq: "trimRightByte s c = trimRightByte (butlast s) c"
      by (subst trimRightByte.simps) simp
    from 1 [OF True] obtain r where r: "butlast s = trimRightByte (butlast s) c @ r" "set r \<subseteq> {c}"
        "trimRightByte (butlast s) c = [] \<or> last (trimRightByte (butlast s) c) \<noteq> c"
      by blast
    from True have "s = butlast s @ [c]" by (metis append_butlast_last_id)
    also have "butlast s @ [c] = (trimRightByte (butlast s) c @ r) @ [c]"
      by (rule arg_cong [where f = "\<lambda>u. u @ [c]", OF r(1)])
    finally have "s = trimRightByte s c @ (r @ [c])"
      unfolding eq by (simp only: append_assoc)
    moreover from r(2) have "set (r @ [c]) \<subseteq> {c}" by simp
    ultimately show ?thesis using r(3) unfolding eq by blast
  next
    case False
    then have "trimRightByte s c = s" by (subst trimRightByte.simps) auto
    with False show ?thesis by (intro exI [of _ "[]"]) auto
  qed
qed

lemma Trim_decomp:
  "\<exists>l r. s = l @ Trim s c @ r \<and> set l \<subseteq> {c} \<and> set r \<subseteq> {c} \<and>
         (Trim s c = [] \<or> (hd (Trim s c) \<noteq> c \<and> last (Trim s c) \<noteq> c))"
proof -
  obtain r where r: "s = trimRightByte s c @ r" "set r \<subseteq> {c}"
      "trimRightByte s c = [] \<or> last (trimRightByte s c) \<noteq> c"
    using trimRightByte_decomp by blast
  obtain l where l: "trimRightByte s c = l @ trimLeftByte (trimRightByte s c) c" "set l \<subseteq> {c}"
      "trimLeftByte (trimRightByte s c) c = [] \<or> hd (trimLeftByte (trimRightByte s c) c) \<noteq> c"
    using trimLeftByte_decomp by blast
  have T: "Trim s c = trimLeftByte (trimRightByte s c) c"
    by (cases "s = []") (simp_all add: Trim_def trimRightByte.simps [of "[]"])
  have "s = l @ Trim s c @ r"
    using r(1) l(1) unfolding T by (metis append.assoc)
  moreover have "Trim s c = [] \<or> (hd (Trim s c) \<noteq> c \<and> last (Trim s c) \<noteq> c)"
  proof (cases "Trim s c = []")
    case True
    then show ?thesis by simp
  next
    case False
    then have "last (Trim s c) = last (trimRightByte s c)"
      unfolding T by (rule trimLeftByte_last)
    moreover have "trimRightByte s c \<noteq> []"
      using False unfolding T by (cases "trimRightByte s c") auto
    ultimately show ?thesis using r(3) l(3) False unfolding T by auto
  qed
  ultimately show ?thesis using l(2) r(2) by blast
qed

lemma mod_window:
  fixes a x m :: nat
  assumes "a \<le> x" "x < a + m" "a mod m = 0"
  shows "x mod m = x - a"
proof -
  from assms(1) obtain k where k: "x = a + k" by (auto simp: le_iff_add)
  with assms(2) have "k < m" by simp
  have "(a + k) mod m = (a mod m + k mod m) mod m" by (simp add: mod_add_eq)
  also have "\<dots> = k" using \<open>k < m\<close> assms(3) by simp
  finally show ?thesis using k by simp
qed

lemma utf8_two_bytes:
  assumes "0xC2 \<le> x" "x < 0xE0"
  shows "(0x80::nat) \<le> x mod 0x20 * 0x40 + y"
proof -
  have "x mod 0x20 = x - 0xC0" using assms by (intro mod_window) simp_all
  with assms show ?thesis by simp
qed

lemma utf8_cont_A0:
  assumes "\<not> y < 0xA0" "\<not> 0xBF < y"
  shows "(0x80::nat) \<le> y mod 0x40 * 0x40 + z"
proof -
  have "y mod 0x40 = y - 0x80" using assms by (intro mod_window) simp_all
  with assms show ?thesis by simp
qed

lemma utf8_cont_90:
  assumes "\<not> y < 0x90" "\<not> 0xBF < y"
  shows "(0x80::nat) \<le> y mod 0x40 * 0x1000 + z + w"
proof -
  have "y mod 0x40 = y - 0x80" using assms by (intro mod_window) simp_all
  with assms show ?thesis by simp
qed

lemma utf8_three_bytes:
  assumes "0xE0 \<le> x" "x < 0xF0" "x = 0xE0 \<longrightarrow> 0xA0 \<le> y" "y \<le> 0xBF"
  shows "(0x80::nat) \<le> x mod 0x10 * 0x1000 + y mod 0x40 * 0x40 + z"
proof (cases "x = 0xE0")
  case True
  with assms have "\<not> y < 0xA0" "\<not> 0xBF < y" by simp_all
  then have "(0x80::nat) \<le> y mod 0x40 * 0x40 + z" by (rule utf8_cont_A0)
  then show ?thesis by simp
next
  case False
  have "x mod 0x10 = x - 0xE0" using assms by (intro mod_window) simp_all
  with assms False show ?thesis by simp
qed

lemma utf8_four_bytes:
  assumes "0xF0 \<le> x" "x \<le> 0xF4" "x = 0xF0 \<longrightarrow> 0x90 \<le> y" "y \<le> 0xBF"
  shows "(0x80::nat) \<le> x mod 8 * 0x40000 + y mod 0x40 * 0x1000 + z + w"
proof (cases "x = 0xF0")
  case True
  with assms have "\<not> y < 0x90" "\<not> 0xBF < y" by simp_all
  then have "(0x80::nat) \<le> y mod 0x40 * 0x1000 + z + w" by (rule utf8_cont_90)
  then show ?thesis by simp
next
  case False
  have "x mod 8 = x - 0xF0" using assms by (intro mod_window) simp_all
  with assms False show ?thesis by simp
qed

lemma DecodeRune_high:
  assumes c0: "0x80 \<le> byte c0"
  shows "0x80 \<le> fst (DecodeRuneInString (c0 # s'))"
proof -
  consider (bad) "byte c0 < 0xC2 \<or> 0xF4 < byte c0"
    | (two) "0xC2 \<le> byte c0" "byte c0 < 0xE0"
    | (three) "0xE0 \<le> byte c0" "byte c0 < 0xF0"
    | (four) "0xF0 \<le> byte c0" "byte c0 \<le> 0xF4"
    by linarith
  then show ?thesis
  proof cases
    case bad
    with c0 show ?thesis
      by (simp add: DecodeRuneInString_def Let_def RuneSelf_def RuneError_def)
  next
    case two
    with c0 show ?thesis
      by (simp add: DecodeRuneInString_def Let_def RuneSelf_def RuneError_def utf8_two_bytes)
  next
    case three
    with c0 show ?thesis
      by (auto simp: DecodeRuneInString_def Let_def RuneSelf_def RuneError_def
          utf8_three_bytes utf8_cont_A0)
  next
    case four
    with c0 show ?thesis
      by (auto simp: DecodeRuneInString_def Let_def RuneSelf_def RuneError_def
          utf8_four_bytes utf8_cont_90)
  qed
qed

lemma DecodeRune_ascii:
  assumes "s \<noteq> []" and "fst (DecodeRuneInString s) < 0x80"
  shows "byte (hd s) < 0x80"
proof (rule ccontr)
  assume n: "\<not> byte (hd s) < 0x80"
  obtain c0 s' where s: "s = c0 # s'" using assms(1) by (cases s) auto
  have "0x80 \<le> fst (DecodeRuneInString s)"
    using n unfolding s by (intro DecodeRune_high) simp
  with assms(2) show False by simp
qed

lemma runes_eq_Nil_iff: "runes s = [] \<longleftrightarrow> s = []"
  by (subst runes.simps) simp

lemma fold_key_digit_one: "fold_key r = 0x31 \<longleftrightarrow> r = 0x31"
  by (auto simp: fold_key_def)

lemma ci_match_one: "ci_match s ''1'' \<longleftrightarrow> s = ''1''"
proof
  assume "s = ''1''"
  then show "ci_match s ''1''" by (simp add: ci_match_def)
next
  assume m: "ci_match s ''1''"
  have one: "runes ''1'' = [0x31]"
    by (simp add: runes_ascii)
  from m have k: "map fold_key (runes s) = [0x31]"
    by (simp add: ci_match_def one fold_key_def)
  then have ne: "s \<noteq> []" by auto
  then have r: "runes s = fst (DecodeRuneInString s) # runes (drop (snd (DecodeRuneInString s)) s)"
    by (subst runes.simps) simp
  from k r have fst1: "fst (DecodeRuneInString s) = 0x31"
    and rest: "runes (drop (snd (DecodeRuneInString s)) s) = []"
    by (simp_all add: fold_key_digit_one)
  from ne fst1 have asc: "byte (hd s) < 0x80"
    by (intro DecodeRune_ascii) simp_all
  obtain c s' where s: "s = c # s'" using ne by (cases s) auto
  from asc have d: "DecodeRuneInString s = (byte c, 1)"
    unfolding s by (simp add: DecodeRuneInString_def RuneSelf_def)
  from fst1 d have "byte c = 0x31" by simp
  then have "byte c = byte (CHR ''1'')" by simp
  then have c: "c = CHR ''1''" by (simp only: of_char_eq_iff)
  from rest d have "s' = []" by (simp add: s runes_eq_Nil_iff)
  with c s show "s = ''1''" by simp
qed

lemma or_else_Some: "or_else (Some x) (Some y) = Some (x \<or> y)"
  by (cases x) (simp_all add: or_else_def)

lemma FlexBool_UnmarshalJSON_eq:
  "FlexBool_UnmarshalJSON tables f b =
     Some (f\<lparr>Txt := Trim b (CHR 0x22),
             Val := (\<exists>tok \<in> set truthy_vocabulary. ci_match (Trim b (CHR 0x22)) tok)\<rparr>, None)"
  by (simp add: FlexBool_UnmarshalJSON_def Let_def EqualFold_ascii or_else_Some
      truthy_vocabulary_def ci_match_one)

lemma ci_match_falsy:
  assumes "t \<in> {''0'', ''false'', ''no'', ''disarmed'', ''inactive'', ''disabled'', ''''}"
  shows "\<not> (\<exists>tok \<in> set truthy_vocabulary. ci_match t tok)"
  using assms by (auto simp: truthy_vocabulary_def ci_match_def runes_ascii fold_key_def)

text \<open>
  Claim C2.  For every input \<open>b\<close> (and every receiver), \<^verbatim>\<open>FlexBool.UnmarshalJSON\<close>
  returns, and returns no error.  Afterwards \<open>Val\<close> is true exactly when the stored
  \<open>Txt\<close> matches one of the tokens 1, true, yes, t, armed, active, enabled, ready, up, ok
  case-insensitively.  Case-insensitive is what \<^verbatim>\<open>strings.EqualFold\<close> decides, Unicode
  simple case folding: besides the two cases of an ASCII letter it identifies the long s
  (U+017F) with s and the Kelvin sign (U+212A) with k.  In particular the texts 0, false,
  no, disarmed, inactive, disabled and the empty text give \<open>Val = False\<close>.
\<close>

theorem FlexBool_UnmarshalJSON_truthy:
  "\<exists>f'. FlexBool_UnmarshalJSON tables f b = Some (f', None) \<and>
        Val f' = (\<exists>tok \<in> set truthy_vocabulary. ci_match (Txt f') tok) \<and>
        (Txt f' \<in> {''0'', ''false'', ''no'', ''disarmed'', ''inactive'', ''disabled'', ''''}
           \<longrightarrow> \<not> Val f')"
  using ci_match_falsy by (simp add: FlexBool_UnmarshalJSON_eq)

lemma Trim_eval_false: "Trim (CHR 0x22 # ''false'' @ [CHR 0x22]) (CHR 0x22) = ''false''"
  by (simp add: Trim_def trimRightByte.simps)

lemma Trim_eval_Armed: "Trim (CHR 0x22 # ''Armed'' @ [CHR 0x22]) (CHR 0x22) = ''Armed''"
  by (simp add: Trim_def trimRightByte.simps)

theorem FlexBool_UnmarshalJSON_truthy_witness:
  "(\<exists>f'. FlexBool_UnmarshalJSON id \<lparr>Val = True, Txt = ''up''\<rparr> (CHR 0x22 # ''false'' @ [CHR 0x22])
            = Some (f', None) \<and> Txt f' = ''false'' \<and> Val f' = False) \<and>
   (\<exists>f'. FlexBool_UnmarshalJSON id \<lparr>Val = False, Txt = []\<rparr> (CHR 0x22 # ''Armed'' @ [CHR 0x22])
            = Some (f', None) \<and> Txt f' = ''Armed'' \<and> Val f' = True)"
proof (intro conjI)
  obtain f' where f': "FlexBool_UnmarshalJSON id \<lparr>Val = True, Txt = ''up''\<rparr>
        (CHR 0x22 # ''false'' @ [CHR 0x22]) = Some (f', None)"
      "Txt f' \<in> {''0'', ''false'', ''no'', ''disarmed'', ''inactive'', ''disabled'', ''''}
         \<longrightarrow> \<not> Val f'"
    using FlexBool_UnmarshalJSON_truthy
      [of id "\<lparr>Val = True, Txt = ''up''\<rparr>" "CHR 0x22 # ''false'' @ [CHR 0x22]"]
    by blast
  from f'(1) have "Txt f' = ''false''"
    unfolding FlexBool_UnmarshalJSON_eq using Trim_eval_false by auto
  with f' show "\<exists>f'. FlexBool_UnmarshalJSON id \<lparr>Val = True, Txt = ''up''\<rparr>
      (CHR 0x22 # ''false'' @ [CHR 0x22]) = Some (f', None) \<and> Txt f' = ''false'' \<and> Val f' = False"
    by auto
next
  obtain f' where f': "FlexBool_UnmarshalJSON id \<lparr>Val = False, Txt = []\<rparr>
        (CHR 0x22 # ''Armed'' @ [CHR 0x22]) = Some (f', None)"
      "Val f' = (\<exists>tok \<in> set truthy_vocabulary. ci_match (Txt f') tok)"
    using FlexBool_UnmarshalJSON_truthy
      [of id "\<lparr>Val = False, Txt = []\<rparr>" "CHR 0x22 # ''Armed'' @ [CHR 0x22]"]
    by blast
  from f'(1) have t: "Txt f' = ''Armed''"
    unfolding FlexBool_UnmarshalJSON_eq using Trim_eval_Armed by auto
  have "ci_match ''Armed'' ''armed''"
    by (simp add: ci_match_def runes_ascii fold_key_def)
  then have "Val f'"
    unfolding f'(2) t by (auto simp: truthy_vocabulary_def)
  with f'(1) t show "\<exists>f'. FlexBool_UnmarshalJSON id \<lparr>Val = False, Txt = []\<rparr>
      (CHR 0x22 # ''Armed'' @ [CHR 0x22]) = Some (f', None) \<and> Txt f' = ''Armed'' \<and> Val f' = True"
    by auto
qed

lemma trimRightByte_snoc_same: "trimRightByte (s @ [c]) c = trimRightByte s c"
  by (subst trimRightByte.simps) simp

lemma trimRightByte_id: "s = [] \<or> last s \<noteq> c \<Longrightarrow> trimRightByte s c = s"
  by (subst trimRightByte.simps) auto

lemma trimLeftByte_id: "s = [] \<or> hd s \<noteq> c \<Longrightarrow> trimLeftByte s c = s"
  by (cases s) auto

lemma Trim_one_layer:
  assumes "m = [] \<or> (hd m \<noteq> c \<and> last m \<noteq> c)"
  shows "Trim (c # m @ [c]) c = m"
proof (cases "m = []")
  case True
  have "trimRightByte [c, c] c = trimRightByte [c] c"
    using trimRightByte_snoc_same [of "[c]" c] by simp
  also have "\<dots> = trimRightByte [] c"
    using trimRightByte_snoc_same [of "[]" c] by simp
  also have "\<dots> = []" by (simp add: trimRightByte_id)
  finally show ?thesis using True by (simp add: Trim_def)
next
  case False
  with assms have hl: "hd m \<noteq> c" "last m \<noteq> c" by simp_all
  have "trimRightByte (c # m @ [c]) c = trimRightByte (c # m) c"
    using trimRightByte_snoc_same [of "c # m" c] by simp
  also have "\<dots> = c # m"
    using False hl by (intro trimRightByte_id) simp
  finally show ?thesis
    using hl by (simp add: Trim_def trimLeftByte_id)
qed

text \<open>
  Claim C6, as amended.  \<^verbatim>\<open>FlexBool.UnmarshalJSON\<close> sets \<open>Txt\<close> to \<open>b\<close> with every
  leading and every trailing double quote removed, not only one layer: \<open>b\<close> is a run of
  quotes, then \<open>Txt\<close>, then a run of quotes, and \<open>Txt\<close> neither starts nor ends with a
  quote.  The bytes in between are untouched, whatever the boolean result is.  When
  \<open>b\<close> is some text \<open>m\<close> between one pair of quotes and \<open>m\<close> itself neither starts nor
  ends with a quote, \<open>Txt\<close> is \<open>m\<close>.
\<close>

theorem FlexBool_UnmarshalJSON_Txt_trimmed:
  "\<exists>f' l r. FlexBool_UnmarshalJSON tables f b = Some (f', None) \<and>
      b = l @ Txt f' @ r \<and> set l \<subseteq> {CHR 0x22} \<and> set r \<subseteq> {CHR 0x22} \<and>
      (Txt f' = [] \<or> (hd (Txt f') \<noteq> CHR 0x22 \<and> last (Txt f') \<noteq> CHR 0x22)) \<and>
      (\<forall>m. b = CHR 0x22 # m @ [CHR 0x22] \<and> (m = [] \<or> (hd m \<noteq> CHR 0x22 \<and> last m \<noteq> CHR 0x22))
            \<longrightarrow> Txt f' = m)"
proof -
  obtain l r where d: "b = l @ Trim b (CHR 0x22) @ r" "set l \<subseteq> {CHR 0x22}" "set r \<subseteq> {CHR 0x22}"
      "Trim b (CHR 0x22) = [] \<or>
         (hd (Trim b (CHR 0x22)) \<noteq> CHR 0x22 \<and> last (Trim b (CHR 0x22)) \<noteq> CHR 0x22)"
    using Trim_decomp [of b "CHR 0x22"] by blast
  have one: "\<forall>m. b = CHR 0x22 # m @ [CHR 0x22] \<and> (m = [] \<or> (hd m \<noteq> CHR 0x22 \<and> last m \<noteq> CHR 0x22))
            \<longrightarrow> Trim b (CHR 0x22) = m"
    using Trim_one_layer by blast
  show ?thesis
    unfolding FlexBool_UnmarshalJSON_eq using d one by auto
qed

text \<open>The amended claim at the input \<open>"ready"\<close>, one layer of quotes.\<close>

theorem FlexBool_UnmarshalJSON_Txt_trimmed_witness:
  "\<exists>f'. FlexBool_UnmarshalJSON id \<lparr>Val = False, Txt = []\<rparr> (CHR 0x22 # ''ready'' @ [CHR 0x22])
           = Some (f', None) \<and> Txt f' = ''ready''"
proof -
  obtain f' where f': "FlexBool_UnmarshalJSON id \<lparr>Val = False, Txt = []\<rparr>
        (CHR 0x22 # ''ready'' @ [CHR 0x22]) = Some (f', None)"
      "\<forall>m. CHR 0x22 # ''ready'' @ [CHR 0x22] = CHR 0x22 # m @ [CHR 0x22] \<and>
           (m = [] \<or> (hd m \<noteq> CHR 0x22 \<and> last m \<noteq> CHR 0x22)) \<longrightarrow> Txt f' = m"
    using FlexBool_UnmarshalJSON_Txt_trimmed
      [of id "\<lparr>Val = False, Txt = []\<rparr>" "CHR 0x22 # ''ready'' @ [CHR 0x22]"]
    by blast
  from f'(2) [rule_format, of "''ready''"] have "Txt f' = ''ready''" by simp
  with f'(1) show ?thesis by blast
qed

text \<open>
  Claim C6 as stated fails at the four bytes \<open>"\""\<close>, the JSON string whose value is one
  double quote: \<^verbatim>\<open>strings.Trim\<close> removes both trailing quotes and leaves the
  backslash, where stripping a single layer leaves the backslash and a quote.
\<close>

theorem FlexBool_UnmarshalJSON_single_layer_counterexample:
  "FlexBool_UnmarshalJSON id \<lparr>Val = False, Txt = []\<rparr> [CHR 0x22, CHR 0x5C, CHR 0x22, CHR 0x22]
     = Some (\<lparr>Val = False, Txt = [CHR 0x5C]\<rparr>, None) \<and>
   strip_one_layer [CHR 0x22, CHR 0x5C, CHR 0x22, CHR 0x22] = [CHR 0x5C, CHR 0x22] \<and>
   [CHR 0x5C] \<noteq> [CHR 0x5C, CHR 0x22]"
  by (simp add: FlexBool_UnmarshalJSON_def Let_def Trim_def trimRightByte.simps or_else_def
      strip_one_layer_def RuneSelf_def)

end
